theory Spec2Isabelle
  imports Complex_Main
begin

section \<open>Data model of \<open>main.py\<close>\<close>

text \<open>
  Python exceptions that the modelled code can raise. \<open>KeyError\<close> carries the missing key,
  because the wallet-level handler renders the exception with \<open>str(e)\<close>.
\<close>

datatype py_error =
    IndexError
  | KeyError string
  | ZeroDivisionError
  | ValueError
  | TypeError
  | JSONDecodeError
  | HTTPError int
  | RequestsError
  | RPCError string
  | DecimalOverflow
  | DecimalDivisionByZero

text \<open>
  \<open>networks\<close> is the dictionary loaded from \<open>config.toml\<close>: network name to the list of its
  RPC urls. Python dictionaries keep insertion order and \<open>process_wallet_chunk\<close> iterates
  over it, so it is an association list; \<open>networks[name]\<close> is \<open>map_of\<close>.
\<close>

type_synonym networks = "(string \<times> string list) list"

text \<open>
  The module-level mutable state: \<open>current_rpc_index\<close>, and a log of the requests that
  \<open>session.post\<close> dispatched (url and address, oldest first). The log is not in the source;
  it makes the number of attempts observable.
\<close>

record state =
  current_rpc_index :: "string \<rightharpoonup> nat"
  requests :: "(string \<times> string) list"

definition init_state :: state where
  "init_state = \<lparr>current_rpc_index = Map.empty, requests = []\<rparr>"

section \<open>Endpoint rotation: \<open>get_next_rpc\<close>\<close>

text \<open>
  Lines 77-89. The cursor entry is created before \<open>networks[network]\<close> is read, the new
  cursor is stored before the list is indexed, and the url returned is the one at the old
  cursor. An empty list makes \<open>% len(rpc_list)\<close> raise.
\<close>

definition get_next_rpc :: "networks \<Rightarrow> string \<Rightarrow> state \<Rightarrow> (py_error + string) \<times> state" where
  "get_next_rpc nets network s =
     (let current_index = (case current_rpc_index s network of None \<Rightarrow> 0 | Some i \<Rightarrow> i);
          s0 = s\<lparr>current_rpc_index := (current_rpc_index s)(network \<mapsto> current_index)\<rparr>
      in case map_of nets network of
           None \<Rightarrow> (Inl (KeyError network), s0)
         | Some rpc_list \<Rightarrow>
             if length rpc_list = 0 then (Inl ZeroDivisionError, s0)
             else
               let next_index = (current_index + 1) mod length rpc_list;
                   s1 = s\<lparr>current_rpc_index := (current_rpc_index s)(network \<mapsto> next_index)\<rparr>
               in if current_index < length rpc_list
                  then (Inr (rpc_list ! current_index), s1)
                  else (Inl IndexError, s1))"

text \<open>\<open>k\<close> consecutive calls of \<open>get_next_rpc\<close> for one network, collecting the urls returned.\<close>

fun get_next_rpc_times :: "networks \<Rightarrow> string \<Rightarrow> nat \<Rightarrow> state \<Rightarrow> (py_error + string list) \<times> state" where
  "get_next_rpc_times nets network 0 s = (Inr [], s)"
| "get_next_rpc_times nets network (Suc k) s =
     (case get_next_rpc nets network s of
        (Inl e, s') \<Rightarrow> (Inl e, s')
      | (Inr url, s') \<Rightarrow>
          (case get_next_rpc_times nets network k s' of
             (Inl e, s'') \<Rightarrow> (Inl e, s'')
           | (Inr urls, s'') \<Rightarrow> (Inr (url # urls), s'')))"

text \<open>The cursor of a network, read as the code reads it: a missing entry counts as 0.\<close>

definition cursor :: "state \<Rightarrow> string \<Rightarrow> nat" where
  "cursor s network = (case current_rpc_index s network of None \<Rightarrow> 0 | Some i \<Rightarrow> i)"

text \<open>
  The invariant of the rotation state: the cursor of every configured network is inside
  its endpoint list. It holds before the first call and \<open>get_next_rpc\<close> keeps it.
\<close>

definition cursors_ok :: "networks \<Rightarrow> state \<Rightarrow> bool" where
  "cursors_ok nets s =
     (\<forall>network rpcs. map_of nets network = Some rpcs \<longrightarrow> cursor s network < length rpcs)"

section \<open>Python built-ins used by the balance fetch\<close>

text \<open>
  A character of a string is a code point below 256. Of these, \<open>str.strip()\<close> removes the
  ones for which \<open>str.isspace()\<close> holds: tab, line feed, vertical tab, form feed, carriage
  return, the separators 0x1C-0x1F, the space, next line (0x85) and the no-break space (0xA0).
\<close>

definition is_space :: "char \<Rightarrow> bool" where
  "is_space c = (of_char c \<in> set [9, 10, 11, 12, 13, 28, 29, 30, 31, 32, 133, 160 :: nat])"

text \<open>
  \<open>int(s, 16)\<close> skips fewer characters around the number: the whitespace of C (tab to
  carriage return, and the space) and the whitespace outside ASCII; the separators
  0x1C-0x1F make it raise \<open>ValueError\<close>.
\<close>

definition is_int_space :: "char \<Rightarrow> bool" where
  "is_int_space c = (of_char c \<in> set [9, 10, 11, 12, 13, 32, 133, 160 :: nat])"

definition strip :: "string \<Rightarrow> string" where
  "strip s = rev (dropWhile is_space (rev (dropWhile is_space s)))"

text \<open>
  \<open>str.lower()\<close> on code points below 256: the letters A-Z, and the capital letters
  0xC0-0xDE without the multiplication sign 0xD7, move up by 32.
\<close>

definition lower_char :: "char \<Rightarrow> char" where
  "lower_char c =
     (let n = of_char c :: nat in
      if (65 \<le> n \<and> n \<le> 90) \<or> (192 \<le> n \<and> n \<le> 222 \<and> n \<noteq> 215) then char_of (n + 32) else c)"

definition lower :: "string \<Rightarrow> string" where
  "lower s = map lower_char s"

text \<open>\<open>sub in s\<close> on strings.\<close>

fun contains :: "string \<Rightarrow> string \<Rightarrow> bool" where
  "contains sub [] = (sub = [])"
| "contains sub (c # cs) = (take (length sub) (c # cs) = sub \<or> contains sub cs)"

definition digit_value :: "char \<Rightarrow> int option" where
  "digit_value c =
     (let n = of_char c :: int in
      if 48 \<le> n \<and> n \<le> 57 then Some (n - 48)
      else if 97 \<le> n \<and> n \<le> 102 then Some (n - 87)
      else if 65 \<le> n \<and> n \<le> 70 then Some (n - 55)
      else None)"

text \<open>
  The digit scan of \<open>int(s, 16)\<close>: hexadecimal digits with single underscores between them.
  It returns the value, the number of digits read and the rest of the string; \<open>prev\<close> says
  that the previous character was an underscore.
\<close>

fun hex_scan :: "int \<Rightarrow> nat \<Rightarrow> bool \<Rightarrow> string \<Rightarrow> py_error + (int \<times> nat \<times> string)" where
  "hex_scan acc n prev [] = (if prev then Inl ValueError else Inr (acc, n, []))"
| "hex_scan acc n prev (c # cs) =
     (if c = CHR ''_'' then (if prev then Inl ValueError else hex_scan acc n True cs)
      else case digit_value c of
             Some d \<Rightarrow> hex_scan (16 * acc + d) (Suc n) False cs
           | None \<Rightarrow> (if prev then Inl ValueError else Inr (acc, n, c # cs)))"

text \<open>
  \<open>int(s, 16)\<close> for a string: surrounding whitespace, an optional sign, an optional
  \<open>0x\<close> or \<open>0X\<close> prefix (one underscore may follow it), then the digits.
\<close>

definition py_int16 :: "string \<Rightarrow> py_error + int" where
  "py_int16 s =
     (let s1 = dropWhile is_int_space s;
          neg = (s1 \<noteq> [] \<and> hd s1 = CHR ''-'');
          s2 = (if s1 \<noteq> [] \<and> (hd s1 = CHR ''+'' \<or> hd s1 = CHR ''-'') then tl s1 else s1);
          s3 = (if 2 \<le> length s2 \<and> hd s2 = CHR ''0'' \<and> (s2 ! 1 = CHR ''x'' \<or> s2 ! 1 = CHR ''X'')
                then (let r = drop 2 s2 in if r \<noteq> [] \<and> hd r = CHR ''_'' then tl r else r)
                else s2)
      in if s3 \<noteq> [] \<and> hd s3 = CHR ''_'' then Inl ValueError
         else case hex_scan 0 0 False s3 of
                Inl e \<Rightarrow> Inl e
              | Inr (v, n, rest) \<Rightarrow>
                  if n = 0 then Inl ValueError
                  else if dropWhile is_int_space rest = [] then Inr (if neg then - v else v)
                  else Inl ValueError)"

section \<open>\<open>Decimal\<close> in the default context\<close>

text \<open>
  A finite \<open>decimal.Decimal\<close>: sign, coefficient and exponent; its value is
  \<open>(-1)^sign * coefficient * 10^exponent\<close>. The source never changes the context, so
  arithmetic runs with precision 28, rounding \<open>ROUND_HALF_EVEN\<close>, \<open>Emax = 999999\<close>,
  \<open>Emin = -999999\<close>, and the traps \<open>InvalidOperation\<close>, \<open>DivisionByZero\<close>, \<open>Overflow\<close>.
\<close>

datatype decimal = Decimal (dsign: bool) (dcoeff: int) (dexp: int)

definition decimal_value :: "decimal \<Rightarrow> rat" where
  "decimal_value d =
     (if dsign d then - 1 else 1) * of_int (dcoeff d) *
     (if 0 \<le> dexp d then 10 ^ nat (dexp d) else 1 / 10 ^ nat (- dexp d))"

definition prec :: int where "prec = 28"
definition Emax :: int where "Emax = 999999"
definition Etiny :: int where "Etiny = - 999999 - prec + 1"
definition Etop :: int where "Etop = Emax - prec + 1"

text \<open>\<open>Decimal(n)\<close> for an integer is exact.\<close>

definition decimal_of_int :: "int \<Rightarrow> decimal" where
  "decimal_of_int n = Decimal (n < 0) \<bar>n\<bar> 0"

text \<open>The number of decimal digits of a coefficient (a non-negative integer), \<open>len(str(n))\<close>.\<close>

function ndigits :: "int \<Rightarrow> nat" where
  "ndigits n = (if n < 10 then 1 else Suc (ndigits (n div 10)))"
  by pat_completeness auto
termination
  by (relation "measure nat") auto

declare ndigits.simps [simp del]

text \<open>
  The context's final rounding (\<open>_fix\<close>): a coefficient of more than \<open>prec\<close> digits is cut
  to \<open>prec\<close> digits, half to even; a result above \<open>Emax\<close> raises \<open>Overflow\<close>; a result that
  fits is returned unchanged.
\<close>

definition decimal_fix :: "decimal \<Rightarrow> py_error + decimal" where
  "decimal_fix d =
     (if dcoeff d = 0 then Inr (Decimal (dsign d) 0 (min (max (dexp d) Etiny) Emax))
      else
        let exp_min0 = int (ndigits (dcoeff d)) + dexp d - prec in
        if exp_min0 > Etop then Inl DecimalOverflow
        else
          let exp_min = max exp_min0 Etiny in
          if dexp d < exp_min then
            let digits0 = int (ndigits (dcoeff d)) + dexp d - exp_min;
                c = (if digits0 < 0 then 1 else dcoeff d);
                e = (if digits0 < 0 then exp_min - 1 else dexp d);
                cut = nat (exp_min - e);
                q = c div 10 ^ cut;
                r = c mod 10 ^ cut;
                half = 5 * 10 ^ (cut - 1);
                up = (r > half \<or> (r = half \<and> odd q));
                coeff = (if up then q + 1 else q);
                carry = (up \<and> int (ndigits coeff) > prec);
                coeff' = (if carry then coeff div 10 else coeff);
                exp_min' = (if carry then exp_min + 1 else exp_min)
            in if exp_min' > Etop then Inl DecimalOverflow
               else Inr (Decimal (dsign d) coeff' exp_min')
          else Inr d)"

text \<open>
  The loop of \<open>__truediv__\<close> that brings an exact quotient as close to the ideal exponent as
  its trailing zeros allow.
\<close>

function strip_zeros :: "int \<Rightarrow> int \<Rightarrow> int \<Rightarrow> int \<times> int" where
  "strip_zeros coeff e ideal_exp =
     (if e < ideal_exp \<and> coeff mod 10 = 0 then strip_zeros (coeff div 10) (e + 1) ideal_exp
      else (coeff, e))"
  by pat_completeness auto
termination
  by (relation "measure (\<lambda>(coeff, e, ideal_exp). nat (ideal_exp - e))") auto

declare strip_zeros.simps [simp del]

text \<open>
  \<open>Decimal.__truediv__\<close>: the quotient is computed with \<open>prec + 1\<close> digits and a sticky last
  digit when it is inexact, then rounded by the context.
\<close>

definition decimal_truediv :: "decimal \<Rightarrow> decimal \<Rightarrow> py_error + decimal" where
  "decimal_truediv a b =
     (if dcoeff b = 0 then Inl DecimalDivisionByZero
      else if dcoeff a = 0 then decimal_fix (Decimal (dsign a \<noteq> dsign b) 0 (dexp a - dexp b))
      else
        let shift = int (ndigits (dcoeff b)) - int (ndigits (dcoeff a)) + prec + 1;
            e = dexp a - dexp b - shift;
            num = (if 0 \<le> shift then dcoeff a * 10 ^ nat shift else dcoeff a);
            den = (if 0 \<le> shift then dcoeff b else dcoeff b * 10 ^ nat (- shift));
            coeff = num div den;
            remainder = num mod den;
            ce = (if remainder \<noteq> 0 then (if coeff mod 5 = 0 then coeff + 1 else coeff, e)
                  else strip_zeros coeff e (dexp a - dexp b))
        in decimal_fix (Decimal (dsign a \<noteq> dsign b) (fst ce) (snd ce)))"

section \<open>One balance request\<close>

text \<open>
  What the code reads from a response: the status code, the text, and the parsed JSON.
  Of the JSON object only the keys \<open>error\<close> (as \<open>str()\<close> renders it) and \<open>result\<close> are read.
\<close>

datatype json_value = JString string | JOther

datatype json_body =
    NotJson
  | JsonNonObject
  | JsonObject (error_field: "string option") (result_field: "json_value option")

record response =
  status_code :: int
  response_text :: string
  body :: json_body

datatype post_result = PostRaises | Response response

text \<open>
  The outside world: what \<open>session.post\<close> does for the \<open>k\<close>-th request of the run, sent to a
  url for an address.
\<close>

type_synonym env = "nat \<Rightarrow> string \<Rightarrow> string \<Rightarrow> post_result"

text \<open>Lines 142-143: the \<open>result\<close> field parsed as hexadecimal and divided by \<open>10**18\<close>.\<close>

definition balance_of_result :: "json_value \<Rightarrow> py_error + decimal" where
  "balance_of_result v =
     (case v of
        JOther \<Rightarrow> Inl TypeError
      | JString s \<Rightarrow>
          (case py_int16 s of
             Inl e \<Rightarrow> Inl e
           | Inr balance \<Rightarrow> decimal_truediv (decimal_of_int balance) (decimal_of_int (10 ^ 18))))"

text \<open>
  How one iteration of the retry loop ends (lines 119-145): with the balance returned, with
  a rate limit (rotate and \<open>continue\<close>), with an exception for the handler, or by falling
  through \<open>raise_for_status\<close>, which raises only for a status outside 200-399.
\<close>

datatype attempt = Balance decimal | RateLimited | Raised py_error | FellThrough

definition attempt_outcome :: "post_result \<Rightarrow> attempt" where
  "attempt_outcome p =
     (case p of
        PostRaises \<Rightarrow> Raised RequestsError
      | Response r \<Rightarrow>
          if status_code r = 429 \<or> contains ''rate limit'' (lower (response_text r)) then RateLimited
          else if status_code r = 200 then
            (case body r of
               NotJson \<Rightarrow> Raised JSONDecodeError
             | JsonNonObject \<Rightarrow> Raised TypeError
             | JsonObject err res \<Rightarrow>
                 (case err of
                    Some msg \<Rightarrow> if contains ''rate'' (lower msg) then RateLimited
                                else Raised (RPCError msg)
                  | None \<Rightarrow>
                      (case res of
                         None \<Rightarrow> Raised (KeyError ''result'')
                       | Some v \<Rightarrow>
                           (case balance_of_result v of
                              Inl e \<Rightarrow> Raised e
                            | Inr d \<Rightarrow> Balance d))))
          else if 200 \<le> status_code r \<and> status_code r < 400 then FellThrough
          else Raised (HTTPError (status_code r)))"

text \<open>
  The retry loop of \<open>get_balance_for_network\<close> (lines 107-157) with \<open>n\<close> iterations left.
  Every iteration posts to \<open>rpc_url\<close>. A rate limit calls \<open>get_next_rpc\<close> inside the
  \<open>try\<close>; an exception, also one of that call, runs the handler, which calls
  \<open>get_next_rpc\<close> outside any \<open>try\<close>. When the iterations are used up the result is
  \<open>Decimal(0)\<close>.
\<close>

fun retry_loop :: "networks \<Rightarrow> env \<Rightarrow> string \<Rightarrow> string \<Rightarrow> nat \<Rightarrow> string \<Rightarrow> state
                   \<Rightarrow> (py_error + decimal) \<times> state" where
  "retry_loop nets env address network 0 rpc_url s = (Inr (Decimal False 0 0), s)"
| "retry_loop nets env address network (Suc n) rpc_url s =
     (let s1 = s\<lparr>requests := requests s @ [(rpc_url, address)]\<rparr> in
      case attempt_outcome (env (length (requests s)) rpc_url address) of
        Balance d \<Rightarrow> (Inr d, s1)
      | FellThrough \<Rightarrow> retry_loop nets env address network n rpc_url s1
      | RateLimited \<Rightarrow>
          (case get_next_rpc nets network s1 of
             (Inr url, s2) \<Rightarrow> retry_loop nets env address network n url s2
           | (Inl e, s2) \<Rightarrow>
               (case get_next_rpc nets network s2 of
                  (Inr url, s3) \<Rightarrow> retry_loop nets env address network n url s3
                | (Inl e', s3) \<Rightarrow> (Inl e', s3)))
      | Raised e \<Rightarrow>
          (case get_next_rpc nets network s1 of
             (Inr url, s2) \<Rightarrow> retry_loop nets env address network n url s2
           | (Inl e', s2) \<Rightarrow> (Inl e', s2)))"

text \<open>
  \<open>get_balance_for_network\<close> (lines 101-157): the first url is read before the loop, outside
  any \<open>try\<close>, so an empty endpoint list raises \<open>IndexError\<close>.
\<close>

definition get_balance_for_network :: "networks \<Rightarrow> env \<Rightarrow> string \<Rightarrow> string \<Rightarrow> state
                                       \<Rightarrow> (py_error + decimal) \<times> state" where
  "get_balance_for_network nets env address network s =
     (case map_of nets network of
        None \<Rightarrow> (Inl (KeyError network), s)
      | Some rpcs \<Rightarrow>
          (case rpcs of
             [] \<Rightarrow> (Inl IndexError, s)
           | rpc_url # _ \<Rightarrow> retry_loop nets env address network (length rpcs) rpc_url s))"

section \<open>\<open>asyncio.gather\<close>\<close>

text \<open>
  A task is a coroutine over the shared state that returns a value or raises. \<open>gather\<close>
  runs all tasks, and Python returns their results in the order of the tasks, whatever the
  order in which they complete; when a task raises, the first exception raised goes to the
  caller while the other tasks run on.

  Concurrency is modelled at the granularity of whole tasks: a schedule, a list of choices,
  picks which pending task completes next (choice \<open>c\<close> picks the pending task at position
  \<open>c mod\<close> the number of pending tasks; a schedule that is too short picks the first), so
  every list is a schedule and every completion order has one.
\<close>

type_synonym ('s, 'a) task = "'s \<Rightarrow> (py_error + 'a) \<times> 's"

function schedule_order :: "nat list \<Rightarrow> nat list \<Rightarrow> nat list" where
  "schedule_order sched pending =
     (if pending = [] then []
      else
        let k = (case sched of [] \<Rightarrow> 0 | c # _ \<Rightarrow> c mod length pending)
        in pending ! k # schedule_order (tl sched) (take k pending @ drop (Suc k) pending))"
  by pat_completeness auto
termination
proof (relation "measure (\<lambda>(sched, pending). length pending)")
  fix sched pending :: "nat list" and k :: nat
  assume ne: "pending \<noteq> []" and k: "k = (case sched of [] \<Rightarrow> 0 | c # _ \<Rightarrow> c mod length pending)"
  have "k < length pending"
    using ne by (cases sched) (simp_all add: k)
  then show "((tl sched, take k pending @ drop (Suc k) pending), sched, pending)
             \<in> measure (\<lambda>(sched, pending). length pending)"
    by simp
qed simp

declare schedule_order.simps [simp del]

fun run_in_order :: "('s, 'a) task list \<Rightarrow> nat list \<Rightarrow> 's \<Rightarrow> (nat \<times> (py_error + 'a)) list \<times> 's" where
  "run_in_order tasks [] s = ([], s)"
| "run_in_order tasks (i # rest) s =
     (case (tasks ! i) s of
        (r, s') \<Rightarrow>
          (case run_in_order tasks rest s' of
             (finished, s'') \<Rightarrow> ((i, r) # finished, s'')))"

fun first_error :: "(py_error + 'a) list \<Rightarrow> py_error option" where
  "first_error [] = None"
| "first_error (Inl e # rs) = Some e"
| "first_error (Inr v # rs) = first_error rs"

definition gather :: "nat list \<Rightarrow> ('s, 'a) task list \<Rightarrow> 's \<Rightarrow> (py_error + 'a list) \<times> 's" where
  "gather sched tasks s =
     (case run_in_order tasks (schedule_order sched [0..<length tasks]) s of
        (finished, s') \<Rightarrow>
          (case first_error (map snd finished) of
             Some e \<Rightarrow> (Inl e, s')
           | None \<Rightarrow>
               (Inr (concat (map (\<lambda>i. case map_of finished i of
                                         Some (Inr v) \<Rightarrow> [v]
                                       | _ \<Rightarrow> []) [0..<length tasks])), s')))"

section \<open>Wallets and the report\<close>

text \<open>
  The \<open>token\<close> of a balance is a coin symbol, or for the synthetic entry of a failed wallet
  the text \<open>f"Error: {str(e)}"\<close>, kept as the exception it renders.
\<close>

datatype token_text = Symbol string | ErrorText py_error

record NetworkBalance =
  network :: string
  balance :: decimal
  token :: token_text

record WalletBalances =
  address :: string
  balances :: "NetworkBalance list"

record BalanceReport =
  wallets :: "WalletBalances list"

text \<open>Line 181.\<close>

definition coin_symbol :: "string \<Rightarrow> string" where
  "coin_symbol network_name =
     (if network_name = ''BSC'' then ''BNB''
      else if network_name = ''Polygon'' then ''POL'' else ''ETH'')"

text \<open>Lines 171-177: one fetch per configured network, gathered.\<close>

definition wallet_fanout :: "networks \<Rightarrow> env \<Rightarrow> nat list \<Rightarrow> string \<Rightarrow> state
                             \<Rightarrow> (py_error + decimal list) \<times> state" where
  "wallet_fanout nets env sched addr s =
     gather sched (map (\<lambda>(network_name, rpcs). get_balance_for_network nets env addr network_name) nets) s"

text \<open>
  The body of the loop of \<open>process_wallet_chunk\<close> (lines 165-193) for one wallet: the
  balances are zipped with \<open>networks.items()\<close>; an exception of the fan-out leaves one
  entry named \<open>ERROR\<close> under the address as it was given.
\<close>

definition process_wallet :: "networks \<Rightarrow> env \<Rightarrow> nat list \<Rightarrow> string \<Rightarrow> state
                              \<Rightarrow> WalletBalances \<times> state" where
  "process_wallet nets env sched wallet s =
     (case wallet_fanout nets env sched (strip wallet) s of
        (Inr bals, s') \<Rightarrow>
          (\<lparr>address = strip wallet,
            balances = map (\<lambda>((network_name, rpcs), b).
                               \<lparr>network = network_name, balance = b,
                                token = Symbol (coin_symbol network_name)\<rparr>) (zip nets bals)\<rparr>, s')
      | (Inl e, s') \<Rightarrow>
          (\<lparr>address = wallet,
            balances = [\<lparr>network = ''ERROR'', balance = Decimal False 0 0,
                         token = ErrorText e\<rparr>]\<rparr>, s'))"

text \<open>
  \<open>process_wallet_chunk\<close> (lines 160-195): the wallets of a chunk one after another.
  \<open>scheds i\<close> is the schedule of the fan-out of the chunk's \<open>i\<close>-th wallet.
\<close>

fun process_wallet_chunk :: "networks \<Rightarrow> env \<Rightarrow> (nat \<Rightarrow> nat list) \<Rightarrow> string list \<Rightarrow> state
                             \<Rightarrow> WalletBalances list \<times> state" where
  "process_wallet_chunk nets env scheds [] s = ([], s)"
| "process_wallet_chunk nets env scheds (wallet # rest) s =
     (case process_wallet nets env (scheds 0) wallet s of
        (wallet_balances, s') \<Rightarrow>
          (case process_wallet_chunk nets env (\<lambda>i. scheds (Suc i)) rest s' of
             (wallet_balances_list, s'') \<Rightarrow> (wallet_balances # wallet_balances_list, s'')))"

section \<open>The batch: \<open>evm_checker\<close>\<close>

text \<open>\<open>range(start, stop, step)\<close> for non-negative arguments; a zero step raises.\<close>

definition py_range :: "nat \<Rightarrow> nat \<Rightarrow> nat \<Rightarrow> py_error + nat list" where
  "py_range start stop step =
     (if step = 0 then Inl ValueError
      else Inr (map (\<lambda>k. start + k * step) [0..<(stop - start + step - 1) div step]))"

text \<open>Line 203.\<close>

definition chunk_size :: "'a list \<Rightarrow> nat" where
  "chunk_size ws = (length ws + 4) div 5"

text \<open>Line 204: the slices \<open>wallets[i:i + chunk_size]\<close> for \<open>i\<close> in the range.\<close>

definition wallet_chunks :: "'a list \<Rightarrow> py_error + 'a list list" where
  "wallet_chunks ws =
     (case py_range 0 (length ws) (chunk_size ws) of
        Inl e \<Rightarrow> Inl e
      | Inr starts \<Rightarrow> Inr (map (\<lambda>i. take (chunk_size ws) (drop i ws)) starts))"

text \<open>
  \<open>evm_checker\<close> (lines 198-223): one task per chunk, gathered, and the chunk results
  appended to the report in the order of the chunks. \<open>chunk_sched\<close> schedules the chunks and
  \<open>wallet_scheds j\<close> the fan-outs of chunk \<open>j\<close>.
\<close>

definition evm_checker :: "networks \<Rightarrow> env \<Rightarrow> nat list \<Rightarrow> (nat \<Rightarrow> nat \<Rightarrow> nat list) \<Rightarrow> string list
                           \<Rightarrow> state \<Rightarrow> (py_error + BalanceReport) \<times> state" where
  "evm_checker nets env chunk_sched wallet_scheds ws s =
     (case wallet_chunks ws of
        Inl e \<Rightarrow> (Inl e, s)
      | Inr chunks \<Rightarrow>
          (let tasks = map (\<lambda>(j, chunk). \<lambda>s0.
                              case process_wallet_chunk nets env (wallet_scheds j) chunk s0 of
                                (r, s1) \<Rightarrow> (Inr r, s1))
                           (zip [0..<length chunks] chunks)
           in case gather chunk_sched tasks s of
                (Inl e, s') \<Rightarrow> (Inl e, s')
              | (Inr chunks_results, s') \<Rightarrow> (Inr \<lparr>wallets = concat chunks_results\<rparr>, s')))"

section \<open>The rate limiter under interleaving\<close>

text \<open>
  \<open>wait_for_rate_limit\<close> (lines 91-98) has one suspension point, the \<open>await asyncio.sleep\<close>
  between the check of \<open>last_request_time\<close> and its update. A caller is therefore in one
  of three places: not started, asleep until a time, or done. The event loop resumes one
  caller at a time; an event names the caller and the clock at that moment. Time is a
  rational number of seconds.
\<close>

definition MIN_REQUEST_INTERVAL :: rat where
  "MIN_REQUEST_INTERVAL = 3"

datatype caller = NotStarted | Sleeping rat | Done

record limiter =
  last_request_time :: "string \<rightharpoonup> rat"
  callers :: "caller list"
  clock :: rat
  dispatches :: "(string \<times> rat) list"

text \<open>
  One resumption of caller \<open>i\<close> on network \<open>name\<close> at time \<open>now\<close>. \<open>None\<close> marks an event
  that cannot happen: an unknown or finished caller, a clock that runs backwards, or a
  sleeper woken before its time. A caller that leaves \<open>wait_for_rate_limit\<close> dispatches its
  request at once, which the log \<open>dispatches\<close> records.
\<close>

definition resume :: "string \<Rightarrow> nat \<Rightarrow> rat \<Rightarrow> limiter \<Rightarrow> limiter option" where
  "resume name i now l =
     (if \<not> i < length (callers l) \<or> now < clock l then None
      else
        let record_now = \<lambda>l0. l0\<lparr>last_request_time := (last_request_time l0)(name \<mapsto> now),
                                  callers := (callers l0)[i := Done],
                                  clock := now,
                                  dispatches := dispatches l0 @ [(name, now)]\<rparr>
        in case callers l ! i of
             Done \<Rightarrow> None
           | Sleeping until \<Rightarrow> if now < until then None else Some (record_now l)
           | NotStarted \<Rightarrow>
               (case last_request_time l name of
                  None \<Rightarrow> Some (record_now l)
                | Some last_time \<Rightarrow>
                    let elapsed = now - last_time in
                    if elapsed < MIN_REQUEST_INTERVAL
                    then Some (l\<lparr>callers := (callers l)[i := Sleeping (now + (MIN_REQUEST_INTERVAL - elapsed))],
                                 clock := now\<rparr>)
                    else Some (record_now l)))"

fun run_events :: "string \<Rightarrow> (nat \<times> rat) list \<Rightarrow> limiter \<Rightarrow> limiter option" where
  "run_events name [] l = Some l"
| "run_events name ((i, now) # evs) l =
     (case resume name i now l of
        None \<Rightarrow> None
      | Some l' \<Rightarrow> run_events name evs l')"

text \<open>The dispatch times of a log are spaced when each is at least the interval after the one before.\<close>

fun spaced :: "rat list \<Rightarrow> bool" where
  "spaced [] = True"
| "spaced [t] = True"
| "spaced (t # u # ts) = (t + MIN_REQUEST_INTERVAL \<le> u \<and> spaced (u # ts))"

section \<open>Round robin\<close>

lemma get_next_rpc_in_range:
  assumes "map_of nets name = Some rpcs" and "cursor s name < length rpcs"
  shows "fst (get_next_rpc nets name s) = Inr (rpcs ! cursor s name)"
    and "cursor (snd (get_next_rpc nets name s)) name = (cursor s name + 1) mod length rpcs"
    and "requests (snd (get_next_rpc nets name s)) = requests s"
  using assms by (auto simp: get_next_rpc_def cursor_def Let_def split: option.splits)

lemma get_next_rpc_times_segment:
  assumes "map_of nets name = Some rpcs"
  shows "cursor s name + k \<le> length rpcs \<Longrightarrow>
         fst (get_next_rpc_times nets name k s) = Inr (take k (drop (cursor s name) rpcs))
       \<and> (0 < k \<longrightarrow> cursor (snd (get_next_rpc_times nets name k s)) name
                    = (cursor s name + k) mod length rpcs)"
proof (induction k arbitrary: s)
  case 0
  then show ?case by simp
next
  case (Suc k)
  let ?i = "cursor s name"
  let ?s' = "snd (get_next_rpc nets name s)"
  from Suc.prems have lt: "?i < length rpcs" by simp
  have r: "fst (get_next_rpc nets name s) = Inr (rpcs ! ?i)"
    and c: "cursor ?s' name = (?i + 1) mod length rpcs"
    using get_next_rpc_in_range [OF assms lt] by simp_all
  show ?case
  proof (cases "k = 0")
    case True
    with r c lt show ?thesis
      by (cases "get_next_rpc nets name s")
         (simp add: take_Suc_conv_app_nth [symmetric] take_Suc hd_drop_conv_nth)
  next
    case False
    with Suc.prems have lt1: "?i + 1 < length rpcs" by simp
    with c have c': "cursor ?s' name = ?i + 1" by simp
    with Suc.prems have "cursor ?s' name + k \<le> length rpcs" by simp
    from Suc.IH [OF this] c'
    have ih: "fst (get_next_rpc_times nets name k ?s') = Inr (take k (drop (?i + 1) rpcs))"
      and ihc: "cursor (snd (get_next_rpc_times nets name k ?s')) name
                = (?i + 1 + k) mod length rpcs"
      using False by simp_all
    have "drop ?i rpcs = rpcs ! ?i # drop (?i + 1) rpcs"
      using lt by (simp add: Cons_nth_drop_Suc)
    with r ih ihc show ?thesis
      by (cases "get_next_rpc nets name s"; cases "get_next_rpc_times nets name k ?s'")
         (simp split: sum.splits)
  qed
qed

text \<open>
  C6. With the cursor of a network fresh (no entry yet), as many calls of \<open>get_next_rpc\<close> as
  the network has endpoints return the configured urls in their order, each once, and the
  cursor is back at the start: the same number of further calls returns the same list again.
\<close>

theorem get_next_rpc_round_robin:
  assumes "map_of nets name = Some rpcs"
      and "current_rpc_index s name = None"
  shows "fst (get_next_rpc_times nets name (length rpcs) s) = Inr rpcs
       \<and> fst (get_next_rpc_times nets name (length rpcs)
                (snd (get_next_rpc_times nets name (length rpcs) s))) = Inr rpcs"
proof -
  let ?s' = "snd (get_next_rpc_times nets name (length rpcs) s)"
  from assms(2) have c0: "cursor s name = 0" by (simp add: cursor_def)
  then have "cursor s name + length rpcs \<le> length rpcs" by simp
  from get_next_rpc_times_segment [OF assms(1) this] c0
  have first: "fst (get_next_rpc_times nets name (length rpcs) s) = Inr rpcs"
    and wrapped: "0 < length rpcs \<longrightarrow> cursor ?s' name = 0"
    by simp_all
  have "cursor ?s' name + length rpcs \<le> length rpcs"
  proof (cases "length rpcs = 0")
    case True
    then have "?s' = s" by simp
    with c0 True show ?thesis by simp
  next
    case False
    with wrapped show ?thesis by simp
  qed
  from get_next_rpc_times_segment [OF assms(1) this]
  have "fst (get_next_rpc_times nets name (length rpcs) ?s')
        = Inr (take (length rpcs) (drop (cursor ?s' name) rpcs))"
    by simp
  moreover have "cursor ?s' name = 0"
  proof (cases "length rpcs = 0")
    case True
    then have "?s' = s" by simp
    with c0 show ?thesis by simp
  next
    case False
    with wrapped show ?thesis by simp
  qed
  ultimately show ?thesis using first by simp
qed

theorem get_next_rpc_round_robin_witness:
  "fst (get_next_rpc_times [(''Base'', [''u1'', ''u2'', ''u3''])] ''Base'' 3 init_state)
     = Inr [''u1'', ''u2'', ''u3'']
   \<and> fst (get_next_rpc_times [(''Base'', [''u1'', ''u2'', ''u3''])] ''Base'' 3
        (snd (get_next_rpc_times [(''Base'', [''u1'', ''u2'', ''u3''])] ''Base'' 3 init_state)))
     = Inr [''u1'', ''u2'', ''u3'']"
  using get_next_rpc_round_robin [of "[(''Base'', [''u1'', ''u2'', ''u3''])]" "''Base''"
      "[''u1'', ''u2'', ''u3'']" init_state]
  by (simp add: init_state_def numeral_3_eq_3)

section \<open>The retry loop\<close>

lemma get_next_rpc_ok:
  assumes "map_of nets name = Some rpcs" and "cursor s name < length rpcs"
  shows "\<exists>url s2. get_next_rpc nets name s = (Inr url, s2)
                 \<and> cursor s2 name < length rpcs \<and> requests s2 = requests s"
proof -
  from assms(2) have "0 < length rpcs" by linarith
  then have "(cursor s name + 1) mod length rpcs < length rpcs" by simp
  with get_next_rpc_in_range [OF assms] show ?thesis
    by (cases "get_next_rpc nets name s") simp
qed

lemma cursor_requests_update [simp]:
  "cursor (s\<lparr>requests := rs\<rparr>) name = cursor s name"
  by (simp add: cursor_def)

lemma retry_loop_returns:
  assumes "map_of nets name = Some rpcs"
  shows "cursor s name < length rpcs \<Longrightarrow>
         (\<exists>d. fst (retry_loop nets env addr name n url s) = Inr d)
       \<and> cursor (snd (retry_loop nets env addr name n url s)) name < length rpcs"
proof (induction n arbitrary: url s)
  case 0
  then show ?case by simp
next
  case (Suc n)
  let ?s1 = "s\<lparr>requests := requests s @ [(url, addr)]\<rparr>"
  from Suc.prems have c1: "cursor ?s1 name < length rpcs" by simp
  from get_next_rpc_ok [OF assms c1] obtain url' s2
    where g: "get_next_rpc nets name ?s1 = (Inr url', s2)" and c2: "cursor s2 name < length rpcs"
    by blast
  show ?case
    using Suc.IH [OF c1] Suc.IH [OF c2] g c1
    by (cases "attempt_outcome (env (length (requests s)) url addr)") (simp_all add: Let_def)
qed

lemma retry_loop_exhausted:
  assumes "map_of nets name = Some rpcs"
      and "\<forall>k u d. attempt_outcome (env k u addr) \<noteq> Balance d"
  shows "cursor s name < length rpcs \<Longrightarrow>
         fst (retry_loop nets env addr name n url s) = Inr (Decimal False 0 0)
       \<and> length (requests (snd (retry_loop nets env addr name n url s))) = length (requests s) + n"
proof (induction n arbitrary: url s)
  case 0
  then show ?case by simp
next
  case (Suc n)
  let ?s1 = "s\<lparr>requests := requests s @ [(url, addr)]\<rparr>"
  from Suc.prems have c1: "cursor ?s1 name < length rpcs" by simp
  from get_next_rpc_ok [OF assms(1) c1] obtain url' s2
    where g: "get_next_rpc nets name ?s1 = (Inr url', s2)" and c2: "cursor s2 name < length rpcs"
      and r2: "requests s2 = requests ?s1"
    by blast
  show ?case
    using Suc.IH [OF c1] Suc.IH [OF c2] g r2 assms(2)
    by (cases "attempt_outcome (env (length (requests s)) url addr)") (simp_all add: Let_def)
qed

text \<open>
  For a network with a non-empty endpoint list, whose cursor is inside the list,
  \<open>get_balance_for_network\<close> returns a value and does not raise, and leaves the cursor
  inside the list. When no attempt ends with a balance returned, whatever way each fails,
  it has sent exactly as many requests as the network has endpoints and returns
  \<open>Decimal(0)\<close>.
\<close>

lemma get_balance_for_network_returns:
  assumes "map_of nets name = Some rpcs" and "rpcs \<noteq> []" and "cursor s name < length rpcs"
  shows "(\<exists>d. fst (get_balance_for_network nets env addr name s) = Inr d)
       \<and> cursor (snd (get_balance_for_network nets env addr name s)) name < length rpcs
       \<and> ((\<forall>k u d. attempt_outcome (env k u addr) \<noteq> Balance d) \<longrightarrow>
            fst (get_balance_for_network nets env addr name s) = Inr (Decimal False 0 0)
          \<and> length (requests (snd (get_balance_for_network nets env addr name s)))
              = length (requests s) + length rpcs)"
proof -
  from assms(2) obtain u0 rest where rpcs: "rpcs = u0 # rest" by (cases rpcs) auto
  have eq: "get_balance_for_network nets env addr name s
            = retry_loop nets env addr name (length rpcs) u0 s"
    using assms(1) rpcs by (simp add: get_balance_for_network_def)
  show ?thesis
    unfolding eq
    using retry_loop_returns [OF assms(1) assms(3)] retry_loop_exhausted [OF assms(1) _ assms(3)]
    by blast
qed

text \<open>
  C2. Every endpoint answers 429 and the cursor is fresh. The fetch does not raise, makes
  as many attempts as the network has endpoints and returns \<open>Decimal(0)\<close>, but the attempts
  are not one per endpoint: with two endpoints both requests go to the first, with three
  the first is tried twice and the third never. The url that \<open>get_next_rpc\<close> hands back
  after the first failure is the one at the old cursor, the url that has just failed.
\<close>

theorem retry_budget_repeats_first_endpoint:
  "fst (get_balance_for_network [(''A'', [''u1'', ''u2''])]
        (\<lambda>k u a. Response \<lparr>status_code = 429, response_text = [], body = NotJson\<rparr>)
        ''w'' ''A'' init_state) = Inr (Decimal False 0 0)
   \<and> requests (snd (get_balance_for_network [(''A'', [''u1'', ''u2''])]
        (\<lambda>k u a. Response \<lparr>status_code = 429, response_text = [], body = NotJson\<rparr>)
        ''w'' ''A'' init_state)) = [(''u1'', ''w''), (''u1'', ''w'')]
   \<and> fst (get_balance_for_network [(''A'', [''u1'', ''u2'', ''u3''])]
        (\<lambda>k u a. Response \<lparr>status_code = 429, response_text = [], body = NotJson\<rparr>)
        ''w'' ''A'' init_state) = Inr (Decimal False 0 0)
   \<and> requests (snd (get_balance_for_network [(''A'', [''u1'', ''u2'', ''u3''])]
        (\<lambda>k u a. Response \<lparr>status_code = 429, response_text = [], body = NotJson\<rparr>)
        ''w'' ''A'' init_state)) = [(''u1'', ''w''), (''u1'', ''w''), (''u2'', ''w'')]"
proof -
  have "fst (get_balance_for_network [(''A'', [''u1'', ''u2''])]
        (\<lambda>k u a. Response \<lparr>status_code = 429, response_text = [], body = NotJson\<rparr>)
        ''w'' ''A'' init_state) = Inr (Decimal False 0 0)"
    by code_simp
  moreover have "requests (snd (get_balance_for_network [(''A'', [''u1'', ''u2''])]
        (\<lambda>k u a. Response \<lparr>status_code = 429, response_text = [], body = NotJson\<rparr>)
        ''w'' ''A'' init_state)) = [(''u1'', ''w''), (''u1'', ''w'')]"
    by code_simp
  moreover have "fst (get_balance_for_network [(''A'', [''u1'', ''u2'', ''u3''])]
        (\<lambda>k u a. Response \<lparr>status_code = 429, response_text = [], body = NotJson\<rparr>)
        ''w'' ''A'' init_state) = Inr (Decimal False 0 0)"
    by code_simp
  moreover have "requests (snd (get_balance_for_network [(''A'', [''u1'', ''u2'', ''u3''])]
        (\<lambda>k u a. Response \<lparr>status_code = 429, response_text = [], body = NotJson\<rparr>)
        ''w'' ''A'' init_state)) = [(''u1'', ''w''), (''u1'', ''w''), (''u2'', ''w'')]"
    by code_simp
  ultimately show ?thesis by (intro conjI)
qed

text \<open>
  C3. Two endpoints, the first always answering 429 and the second a valid balance of
  \<open>10^18\<close> base units: the first fetch of the run posts to the first endpoint twice, never
  to the second, and returns zero. The first \<open>get_next_rpc\<close> returns the url at the old
  cursor, which is the url that has just failed.
\<close>

theorem failover_first_fetch:
  "fst (get_balance_for_network [(''A'', [''u1'', ''u2''])]
        (\<lambda>k u a. if u = ''u1''
                  then Response \<lparr>status_code = 429, response_text = [], body = NotJson\<rparr>
                  else Response \<lparr>status_code = 200, response_text = [],
                                  body = JsonObject None (Some (JString ''0xDE0B6B3A7640000''))\<rparr>)
        ''w'' ''A'' init_state) = Inr (Decimal False 0 0)
   \<and> requests (snd (get_balance_for_network [(''A'', [''u1'', ''u2''])]
        (\<lambda>k u a. if u = ''u1''
                  then Response \<lparr>status_code = 429, response_text = [], body = NotJson\<rparr>
                  else Response \<lparr>status_code = 200, response_text = [],
                                  body = JsonObject None (Some (JString ''0xDE0B6B3A7640000''))\<rparr>)
        ''w'' ''A'' init_state)) = [(''u1'', ''w''), (''u1'', ''w'')]"
  by (simp add: get_balance_for_network_def get_next_rpc_def attempt_outcome_def init_state_def
      numeral_2_eq_2 Let_def)

section \<open>Conversion of the hexadecimal balance\<close>

lemma ndigits_le: "0 < k \<Longrightarrow> n < 10 ^ k \<Longrightarrow> ndigits n \<le> k"
proof (induction k arbitrary: n)
  case 0
  then show ?case by simp
next
  case (Suc k)
  show ?case
  proof (cases "n < 10")
    case True
    then show ?thesis by (simp add: ndigits.simps)
  next
    case False
    then have k: "0 < k" using Suc.prems by (cases k) auto
    from Suc.prems have "n < 10 * 10 ^ k" by simp
    then have "n div 10 < 10 ^ k" by linarith
    from Suc.IH [OF k this] False show ?thesis by (simp add: ndigits.simps)
  qed
qed

lemma ndigits_pos: "0 < ndigits n"
  by (subst ndigits.simps) simp

lemma ndigits_18: "ndigits (10 ^ 18) = 19"
  by code_simp

lemma strip_zeros_spec:
  "e \<le> i \<Longrightarrow> strip_zeros c e i = (c', e') \<Longrightarrow>
     e \<le> e' \<and> e' \<le> i \<and> c = c' * 10 ^ nat (e' - e) \<and> (e' = i \<or> c' mod 10 \<noteq> 0)"
proof (induction c e i arbitrary: c' e' rule: strip_zeros.induct)
  case (1 coeff e ideal_exp)
  show ?case
  proof (cases "e < ideal_exp \<and> coeff mod 10 = 0")
    case True
    with "1.prems" have rec: "strip_zeros (coeff div 10) (e + 1) ideal_exp = (c', e')"
      by (subst (asm) strip_zeros.simps) simp
    from True have "e + 1 \<le> ideal_exp" by simp
    from "1.IH" [OF True this rec]
    have ih: "e + 1 \<le> e'" "e' \<le> ideal_exp" "coeff div 10 = c' * 10 ^ nat (e' - (e + 1))"
      "e' = ideal_exp \<or> c' mod 10 \<noteq> 0" by simp_all
    from True have "coeff = 10 * (coeff div 10)" by presburger
    also have "\<dots> = c' * (10 * 10 ^ nat (e' - (e + 1)))" using ih(3) by simp
    also have "10 * (10::int) ^ nat (e' - (e + 1)) = 10 ^ Suc (nat (e' - (e + 1)))" by simp
    also have "Suc (nat (e' - (e + 1))) = nat (e' - e)" using ih(1) by simp
    finally show ?thesis using ih by simp
  next
    case False
    with "1.prems" have "c' = coeff" "e' = e"
      by (subst (asm) strip_zeros.simps; simp)+
    with False "1.prems" show ?thesis by auto
  qed
qed


lemma decimal_fix_fits:
  assumes "0 < c" and "c < 10 ^ 28" and "- 48 \<le> e" and "e \<le> 0"
  shows "decimal_fix (Decimal sg c e) = Inr (Decimal sg c e)"
proof -
  have "ndigits c \<le> 28" using assms(2) by (intro ndigits_le) simp_all
  then have "int (ndigits c) + e - 28 \<le> e" by simp
  with assms show ?thesis
    by (simp add: decimal_fix_def prec_def Etop_def Emax_def Etiny_def Let_def)
qed

lemma truediv_exact_below:
  assumes "\<bar>b\<bar> < 10 ^ 28"
  shows "\<exists>d. decimal_truediv (decimal_of_int b) (decimal_of_int (10 ^ 18)) = Inr d
             \<and> decimal_value d = of_int b / 10 ^ 18"
proof (cases "b = 0")
  case True
  then show ?thesis
    by (simp add: decimal_truediv_def decimal_of_int_def decimal_fix_def decimal_value_def
        Etiny_def Emax_def prec_def)
next
  case False
  define a where "a = \<bar>b\<bar>"
  define sg where "sg = (b < 0)"
  have a: "0 < a" "a < 10 ^ 28" using False assms by (simp_all add: a_def)
  define L where "L = ndigits a"
  have L: "0 < L" "L \<le> 28"
    using ndigits_pos [of a] ndigits_le [of 28 a] a by (simp_all add: L_def)
  define sh where "sh = 48 - L"
  have sh: "20 \<le> sh" "sh \<le> 47" "int sh = 48 - int L" using L by (simp_all add: sh_def)
  define k where "k = sh - 18"
  have k: "sh = k + 18" using sh by (simp add: k_def)
  have num: "a * 10 ^ sh = (a * 10 ^ k) * 10 ^ 18" by (simp add: k power_add)
  have q: "a * 10 ^ sh div 10 ^ 18 = a * 10 ^ k" and r: "a * 10 ^ sh mod 10 ^ 18 = 0"
    unfolding num by simp_all
  obtain c' e' where st: "strip_zeros (a * 10 ^ k) (- int sh) 0 = (c', e')"
    by (cases "strip_zeros (a * 10 ^ k) (- int sh) 0")
  have "- int sh \<le> 0" by simp
  from strip_zeros_spec [OF this st]
  have e': "- int sh \<le> e'" "e' \<le> 0" and c: "a * 10 ^ k = c' * 10 ^ nat (e' + int sh)"
    and stop: "e' = 0 \<or> c' mod 10 \<noteq> 0"
    by simp_all
  define m where "m = nat (e' + int sh)"
  have m: "m \<le> sh" "e' = int m - int sh" using e' by (simp_all add: m_def)
  have cm: "a * 10 ^ k = c' * 10 ^ m" using c by (simp add: m_def)
  have c'pos: "0 < c'"
  proof (rule ccontr)
    assume "\<not> 0 < c'"
    then have "c' * 10 ^ m \<le> 0" by (simp add: mult_le_0_iff)
    moreover have "0 < a * 10 ^ k" using a by simp
    ultimately show False using cm by simp
  qed
  define D :: int where "D = 10 ^ 18"
  have D: "D \<noteq> 0" "ndigits D = 19" "a * 10 ^ sh div D = a * 10 ^ k" "a * 10 ^ sh mod D = 0"
    using q r ndigits_18 by (simp_all add: D_def)
  have shift: "int (ndigits D) - int (ndigits a) + prec + 1 = int sh"
    using sh(3) D(2) by (simp add: prec_def L_def)
  have ops: "decimal_of_int b = Decimal sg a 0" "decimal_of_int (10 ^ 18) = Decimal False D 0"
    by (simp_all add: decimal_of_int_def sg_def a_def D_def)
  have "decimal_truediv (Decimal sg a 0) (Decimal False D 0) = decimal_fix (Decimal sg c' e')"
    unfolding decimal_truediv_def decimal.sel Let_def shift
    using D a(1) st by simp
  then have quot: "decimal_truediv (decimal_of_int b) (decimal_of_int (10 ^ 18))
              = decimal_fix (Decimal sg c' e')"
    by (simp only: ops)
  have main: "c' < 10 ^ 28 \<and> of_int c' / 10 ^ (sh - m) = (of_int a / 10 ^ 18 :: rat)"
  proof (cases "k \<le> m")
    case True
    define j where "j = m - k"
    have j: "m = k + j" "j \<le> 18" "sh - m = 18 - j" using True m k by (simp_all add: j_def)
    from cm have "a * 10 ^ k = (c' * 10 ^ j) * 10 ^ k" by (simp add: j power_add)
    then have aj: "a = c' * 10 ^ j" by simp
    have "c' * 1 \<le> c' * 10 ^ j" using c'pos by (intro mult_left_mono) simp_all
    then have "c' \<le> a" using aj by simp
    moreover have "of_int c' / 10 ^ (18 - j) = (of_int a / 10 ^ 18 :: rat)"
    proof -
      have "(10::rat) ^ (18 - j) * 10 ^ j = 10 ^ 18"
        using j(2) by (simp add: power_add [symmetric])
      then have "of_int a / (10::rat) ^ 18 = of_int c' * 10 ^ j / (10 ^ (18 - j) * 10 ^ j)"
        by (simp add: aj)
      also have "\<dots> = of_int c' / 10 ^ (18 - j)" by simp
      finally show ?thesis by simp
    qed
    ultimately show ?thesis using a j by simp
  next
    case False
    define j where "j = k - m"
    have j: "k = m + j" "0 < j" "sh - m = 18 + j" using False k by (simp_all add: j_def)
    from cm have "(a * 10 ^ j) * 10 ^ m = c' * 10 ^ m" by (simp add: j power_add)
    then have cj: "c' = a * 10 ^ j" by simp
    from j(2) obtain j' where "j = Suc j'" by (cases j) auto
    then have "c' mod 10 = 0" using cj by simp
    moreover have "e' \<noteq> 0" using m(2) j(3) by simp
    ultimately show ?thesis using stop by simp
  qed
  have fits: "decimal_fix (Decimal sg c' e') = Inr (Decimal sg c' e')"
    using c'pos main e' sh by (intro decimal_fix_fits) simp_all
  have "decimal_value (Decimal sg c' e') = of_int b / 10 ^ 18"
  proof -
    have "nat (- e') = sh - m" using m by simp
    moreover have "of_int b = (if sg then - 1 else 1) * (of_int a :: rat)"
      by (simp add: sg_def a_def)
    ultimately show ?thesis
      using main e'(2) m by (cases "e' = 0") (simp_all add: decimal_value_def)
  qed
  with quot fits show ?thesis by simp
qed

lemma truediv_exact:
  assumes "\<bar>b\<bar> \<le> 10 ^ 28"
  shows "\<exists>d. decimal_truediv (decimal_of_int b) (decimal_of_int (10 ^ 18)) = Inr d
             \<and> decimal_value d = of_int b / 10 ^ 18"
proof -
  from assms consider "\<bar>b\<bar> < 10 ^ 28" | "b = 10 ^ 28" | "b = - (10 ^ 28)" by linarith
  then show ?thesis
  proof cases
    case 1
    then show ?thesis by (rule truediv_exact_below)
  next
    case 2
    have "decimal_truediv (decimal_of_int (10 ^ 28)) (decimal_of_int (10 ^ 18))
          = Inr (Decimal False 10000000000 0)"
      by code_simp
    moreover have "decimal_value (Decimal False 10000000000 0) = of_int (10 ^ 28) / 10 ^ 18"
      by (simp add: decimal_value_def)
    ultimately show ?thesis unfolding 2 by blast
  next
    case 3
    have "decimal_truediv (decimal_of_int (- (10 ^ 28))) (decimal_of_int (10 ^ 18))
          = Inr (Decimal True 10000000000 0)"
      by code_simp
    moreover have "decimal_value (Decimal True 10000000000 0) = of_int (- (10 ^ 28)) / 10 ^ 18"
      by (simp add: decimal_value_def)
    ultimately show ?thesis unfolding 3 by blast
  qed
qed

text \<open>
  The context rounds a longer quotient to 28 digits, half to even: \<open>10^28 + 9\<close> base units
  round up, \<open>10^28 + 5\<close> is a tie that stays at the even digit, \<open>10^28 + 15\<close> a tie that moves
  up to it.
\<close>

lemma truediv_rounds_half_even:
  "decimal_truediv (decimal_of_int 10000000000000000000000000009) (decimal_of_int (10 ^ 18))
     = Inr (Decimal False 1000000000000000000000000001 (- 17))"
  "decimal_truediv (decimal_of_int 10000000000000000000000000005) (decimal_of_int (10 ^ 18))
     = Inr (Decimal False 1000000000000000000000000000 (- 17))"
  "decimal_truediv (decimal_of_int 10000000000000000000000000015) (decimal_of_int (10 ^ 18))
     = Inr (Decimal False 1000000000000000000000000002 (- 17))"
  by code_simp+

text \<open>
  C7, as amended. When the \<open>result\<close> string parses to a base-unit integer of absolute value
  at most \<open>10^28\<close>, the amount returned is exactly that integer divided by \<open>10^18\<close>: the
  context rounds nothing. The string \<open>0xDE0B6B3A7640000\<close> converts to the decimal 1.
\<close>

theorem balance_of_result_exact:
  assumes "py_int16 s = Inr b" and "\<bar>b\<bar> \<le> 10 ^ 28"
  shows "(\<exists>d. balance_of_result (JString s) = Inr d \<and> decimal_value d = of_int b / 10 ^ 18)
       \<and> balance_of_result (JString ''0xDE0B6B3A7640000'') = Inr (Decimal False 1 0)
       \<and> decimal_value (Decimal False 1 0) = 1"
proof -
  have "\<exists>d. balance_of_result (JString s) = Inr d \<and> decimal_value d = of_int b / 10 ^ 18"
    using truediv_exact [OF assms(2)] assms(1) by (simp add: balance_of_result_def)
  moreover have "balance_of_result (JString ''0xDE0B6B3A7640000'') = Inr (Decimal False 1 0)"
    by code_simp
  moreover have "decimal_value (Decimal False 1 0) = 1"
    by (simp add: decimal_value_def)
  ultimately show ?thesis by simp
qed

theorem balance_of_result_exact_witness:
  "py_int16 ''0x1bc16d674ec80000'' = Inr 2000000000000000000
   \<and> (\<exists>d. balance_of_result (JString ''0x1bc16d674ec80000'') = Inr d \<and> decimal_value d = 2)"
proof -
  have p: "py_int16 ''0x1bc16d674ec80000'' = Inr 2000000000000000000"
    by code_simp
  have "\<bar>2000000000000000000 :: int\<bar> \<le> 10 ^ 28" by simp
  from balance_of_result_exact [OF p this] p show ?thesis by simp
qed

text \<open>
  The claim as stated fails for the next integer: \<open>10^28 + 1\<close> base units come out as
  \<open>1.000000000000000000000000000E+10\<close>, the last digit rounded away.
\<close>

theorem balance_of_result_rounds_counterexample:
  "py_int16 ''0x204fce5e3e25026110000001'' = Inr 10000000000000000000000000001
   \<and> balance_of_result (JString ''0x204fce5e3e25026110000001'')
       = Inr (Decimal False 1000000000000000000000000000 (- 17))
   \<and> decimal_value (Decimal False 1000000000000000000000000000 (- 17))
       \<noteq> 10000000000000000000000000001 / 10 ^ 18"
proof -
  have "py_int16 ''0x204fce5e3e25026110000001'' = Inr 10000000000000000000000000001"
    by code_simp
  moreover have "balance_of_result (JString ''0x204fce5e3e25026110000001'')
       = Inr (Decimal False 1000000000000000000000000000 (- 17))"
    by code_simp
  moreover have "decimal_value (Decimal False 1000000000000000000000000000 (- 17))
       \<noteq> 10000000000000000000000000001 / 10 ^ 18"
    by (simp add: decimal_value_def)
  ultimately show ?thesis by simp
qed

section \<open>Chunking\<close>

lemma concat_slices:
  "concat (map (\<lambda>k. take c (drop (k * c) xs)) [0..<m]) = take (m * c) xs"
proof (induction m)
  case 0
  then show ?case by simp
next
  case (Suc m)
  have "take (m * c) xs @ take c (drop (m * c) xs) = take (m * c + c) xs"
    by (simp add: take_add)
  with Suc show ?case by (simp add: add.commute)
qed

lemma ceil_div_bounds:
  fixes n c m :: nat
  assumes "0 < c" and "0 < n" and m: "m = (n + c - 1) div c"
  shows "n \<le> m * c" and "0 < m" and "(m - 1) * c < n"
proof -
  have le: "m * c \<le> n + c - 1"
    unfolding m by (rule div_times_less_eq_dividend)
  have lt: "n + c - 1 < (m + 1) * c"
    unfolding m using assms(1) by (simp add: dividend_less_div_times)
  from lt show "n \<le> m * c" using assms(1) by simp
  then show pos: "0 < m" using assms(2) by (cases m) simp_all
  then obtain m' where m': "m = Suc m'" by (cases m) auto
  from le have "m' * c + c \<le> n + c - 1" by (simp add: m')
  with assms(1,2) have "m' * c < n" by linarith
  then show "(m - 1) * c < n" by (simp add: m')
qed

lemma wallet_chunks_eq:
  assumes "ws \<noteq> []"
  shows "wallet_chunks ws
         = Inr (map (\<lambda>k. take (chunk_size ws) (drop (k * chunk_size ws) ws))
                  [0..<(length ws + chunk_size ws - 1) div chunk_size ws])"
    and "0 < chunk_size ws"
proof -
  from assms have "1 \<le> length ws" by (cases ws) simp_all
  then show c: "0 < chunk_size ws" unfolding chunk_size_def by linarith
  then show "wallet_chunks ws
         = Inr (map (\<lambda>k. take (chunk_size ws) (drop (k * chunk_size ws) ws))
                  [0..<(length ws + chunk_size ws - 1) div chunk_size ws])"
    by (simp add: wallet_chunks_def py_range_def o_def)
qed

lemma wallet_chunks_concat:
  assumes "ws \<noteq> []"
  shows "\<exists>chunks. wallet_chunks ws = Inr chunks \<and> concat chunks = ws"
proof -
  from assms have n: "0 < length ws" by simp
  have c: "0 < chunk_size ws" by (rule wallet_chunks_eq(2) [OF assms])
  have "length ws \<le> (length ws + chunk_size ws - 1) div chunk_size ws * chunk_size ws"
    by (rule ceil_div_bounds(1) [OF c n refl])
  then show ?thesis
    by (simp add: wallet_chunks_eq(1) [OF assms] concat_slices)
qed

text \<open>
  A non-empty list is cut into consecutive chunks of \<open>chunk_size\<close> addresses, the ceiling
  of a fifth of the length; the last chunk may be shorter and none is empty. Their number
  is the ceiling of the length over the chunk size: at most 5, and exactly 5 when the
  length is above 20 or a multiple of 5.
\<close>

lemma wallet_chunks_partition:
  assumes "ws \<noteq> []"
  shows "\<exists>chunks. wallet_chunks ws = Inr chunks
           \<and> concat chunks = ws
           \<and> length chunks = (length ws + chunk_size ws - 1) div chunk_size ws
           \<and> length chunks \<le> 5
           \<and> (\<forall>c \<in> set chunks. c \<noteq> [] \<and> length c \<le> chunk_size ws)
           \<and> (\<forall>i. Suc i < length chunks \<longrightarrow> length (chunks ! i) = chunk_size ws)
           \<and> (20 < length ws \<or> 5 dvd length ws \<longrightarrow> length chunks = 5)"
proof -
  define n where "n = length ws"
  define c where "c = chunk_size ws"
  define m where "m = (n + c - 1) div c"
  define chunks where "chunks = map (\<lambda>k. take c (drop (k * c) ws)) [0..<m]"
  have n: "0 < n" using assms by (simp add: n_def)
  have c: "0 < c" and eq: "wallet_chunks ws = Inr chunks"
    using wallet_chunks_eq [OF assms] by (simp_all add: c_def chunks_def m_def n_def)
  have c5: "n \<le> 5 * c" "5 * c \<le> n + 4" unfolding c_def chunk_size_def n_def by presburger+
  have b: "n \<le> m * c" "0 < m" "(m - 1) * c < n"
    using ceil_div_bounds [OF c n m_def] by simp_all
  have len: "length chunks = m" by (simp add: chunks_def)
  have cat: "concat chunks = ws"
    unfolding chunks_def concat_slices using b(1) by (simp add: n_def)
  have m5: "m \<le> 5"
  proof (rule ccontr)
    assume "\<not> m \<le> 5"
    then have "5 \<le> m - 1" by simp
    then have "5 * c \<le> (m - 1) * c" by (rule mult_le_mono1)
    with b(3) c5(1) show False by linarith
  qed
  have slot: "k * c < n" if "k < m" for k
  proof -
    from that have "k \<le> m - 1" by simp
    then have "k * c \<le> (m - 1) * c" by (rule mult_le_mono1)
    with b(3) show ?thesis by linarith
  qed
  have nonempty: "\<forall>x \<in> set chunks. x \<noteq> [] \<and> length x \<le> c"
  proof
    fix x assume "x \<in> set chunks"
    then obtain k where k: "k < m" and x: "x = take c (drop (k * c) ws)"
      by (auto simp: chunks_def)
    from slot [OF k] have "k * c < length ws" by (simp add: n_def)
    with c show "x \<noteq> [] \<and> length x \<le> c" by (simp add: x)
  qed
  have full: "length (chunks ! i) = c" if "Suc i < length chunks" for i
  proof -
    from that have "Suc i < m" by (simp add: len)
    from slot [OF this] have "i * c + c < n" by simp
    then show ?thesis using that by (simp add: chunks_def n_def len)
  qed
  have five: "m = 5" if "20 < n \<or> 5 dvd n"
  proof -
    have "4 * c < n"
    proof (rule disjE [OF that])
      assume "20 < n"
      with c5 show ?thesis by arith
    next
      assume "5 dvd n"
      then obtain k where "n = 5 * k" by (elim dvdE)
      with c5 n show ?thesis by arith
    qed
    have "4 < m"
    proof (rule ccontr)
      assume "\<not> 4 < m"
      then have "m * c \<le> 4 * c" by (intro mult_le_mono1) simp
      with b(1) \<open>4 * c < n\<close> show False by linarith
    qed
    with m5 show ?thesis by simp
  qed
  show ?thesis
    using eq cat len m5 nonempty full five
    by (intro exI [of _ chunks]) (simp add: m_def n_def c_def)
qed

text \<open>
  C5. The comment of line 202 says that the list is split into 5 parts. Six addresses are
  split into three chunks of two: the chunk size is the ceiling of 6/5, and the range over
  the list in steps of 2 has three starts.
\<close>

theorem wallet_chunks_six_addresses:
  "5 \<le> length [''a'', ''b'', ''c'', ''d'', ''e'', ''f'']
   \<and> wallet_chunks [''a'', ''b'', ''c'', ''d'', ''e'', ''f'']
       = Inr [[''a'', ''b''], [''c'', ''d''], [''e'', ''f'']]
   \<and> length [[''a'', ''b''], [''c'', ''d''], [''e'', ''f'']] \<noteq> 5"
proof -
  have "wallet_chunks [''a'', ''b'', ''c'', ''d'', ''e'', ''f'']
       = Inr [[''a'', ''b''], [''c'', ''d''], [''e'', ''f'']]"
    by code_simp
  then show ?thesis by simp
qed

text \<open>
  C10. For the empty list the chunk size is 0, \<open>range(0, 0, 0)\<close> raises \<open>ValueError\<close>, and
  \<open>evm_checker\<close> raises it instead of returning a report.
\<close>

theorem evm_checker_empty_raises:
  "chunk_size ([] :: string list) = 0
   \<and> wallet_chunks ([] :: string list) = Inl ValueError
   \<and> fst (evm_checker nets env chunk_sched wallet_scheds [] s) = Inl ValueError"
  by (simp add: chunk_size_def wallet_chunks_def py_range_def evm_checker_def)

section \<open>Results of \<open>gather\<close>\<close>

text \<open>
  Every schedule completes each task once, so \<open>gather\<close> returns one result per task, at
  the position of the task, or raises an exception that one of the tasks raised.
\<close>

lemma schedule_order_set:
  "set (schedule_order sched pending) = set pending
   \<and> (distinct pending \<longrightarrow> distinct (schedule_order sched pending))"
proof (induction sched pending rule: schedule_order.induct)
  case (1 sched pending)
  show ?case
  proof (cases "pending = []")
    case True
    then show ?thesis by (simp add: schedule_order.simps)
  next
    case False
    define k where "k = (case sched of [] \<Rightarrow> 0 | c # _ \<Rightarrow> c mod length pending)"
    have k: "k < length pending"
      using False by (cases sched) (simp_all add: k_def)
    let ?rest = "take k pending @ drop (Suc k) pending"
    have split: "pending = take k pending @ pending ! k # drop (Suc k) pending"
      using k by (rule id_take_nth_drop)
    have unfold: "schedule_order sched pending = pending ! k # schedule_order (tl sched) ?rest"
      using False by (subst schedule_order.simps) (simp add: k_def Let_def)
    from "1.IH" [OF False k_def]
    have ih: "set (schedule_order (tl sched) ?rest) = set ?rest"
      and ihd: "distinct ?rest \<longrightarrow> distinct (schedule_order (tl sched) ?rest)"
      by simp_all
    have s: "set pending = insert (pending ! k) (set ?rest)"
      by (subst split) auto
    have d: "distinct pending \<longrightarrow> distinct ?rest \<and> pending ! k \<notin> set ?rest"
    proof
      assume "distinct pending"
      then have "distinct (take k pending @ pending ! k # drop (Suc k) pending)"
        using split by simp
      then show "distinct ?rest \<and> pending ! k \<notin> set ?rest" by auto
    qed
    show ?thesis
      unfolding unfold using ih ihd s d by simp
  qed
qed

lemma run_in_order_keys:
  "map fst (fst (run_in_order tasks order s)) = order"
proof (induction order arbitrary: s)
  case Nil
  then show ?case by simp
next
  case (Cons j rest)
  obtain r1 s1 where t: "(tasks ! j) s = (r1, s1)" by (cases "(tasks ! j) s")
  obtain fin s2 where rec: "run_in_order tasks rest s1 = (fin, s2)"
    by (cases "run_in_order tasks rest s1")
  from Cons.IH [of s1] rec have "map fst fin = rest" by simp
  with t rec show ?case by simp
qed

lemma run_in_order_results:
  "(i, r) \<in> set (fst (run_in_order tasks order s)) \<Longrightarrow> \<exists>s0. r = fst ((tasks ! i) s0)"
proof (induction order arbitrary: s)
  case Nil
  then show ?case by simp
next
  case (Cons j rest)
  obtain r1 s1 where t: "(tasks ! j) s = (r1, s1)" by (cases "(tasks ! j) s")
  obtain fin s2 where rec: "run_in_order tasks rest s1 = (fin, s2)"
    by (cases "run_in_order tasks rest s1")
  from Cons.prems t rec have "(i, r) = (j, r1) \<or> (i, r) \<in> set fin" by simp
  then show ?case
  proof
    assume "(i, r) = (j, r1)"
    with t have "r = fst ((tasks ! i) s)" by simp
    then show ?thesis ..
  next
    assume "(i, r) \<in> set fin"
    with rec have "(i, r) \<in> set (fst (run_in_order tasks rest s1))" by simp
    then show ?thesis by (rule Cons.IH)
  qed
qed

lemma first_error_None:
  "first_error rs = None \<Longrightarrow> r \<in> set rs \<Longrightarrow> \<exists>v. r = Inr v"
  by (induction rs rule: first_error.induct) auto

lemma first_error_Some:
  "first_error rs = Some e \<Longrightarrow> Inl e \<in> set rs"
  by (induction rs rule: first_error.induct) auto

lemma concat_singletons:
  "(\<And>i. i \<in> set xs \<Longrightarrow> f i = [g i]) \<Longrightarrow> concat (map f xs) = map g xs"
  by (induction xs) simp_all

lemma gather_finished:
  assumes "run_in_order tasks (schedule_order sched [0..<length tasks]) s = (fin, s')"
      and "i < length tasks"
  shows "\<exists>r s0. map_of fin i = Some r \<and> r = fst ((tasks ! i) s0)"
proof -
  have keys: "map fst fin = schedule_order sched [0..<length tasks]"
    using run_in_order_keys [of tasks "schedule_order sched [0..<length tasks]" s] assms(1)
    by simp
  have "set (schedule_order sched [0..<length tasks]) = set [0..<length tasks]"
    using schedule_order_set by blast
  with keys assms(2) have "i \<in> fst ` set fin"
    by (metis atLeastLessThan_iff list.set_map set_upt zero_le)
  then obtain r where r: "map_of fin i = Some r"
    by (metis map_of_eq_None_iff not_Some_eq)
  then have "(i, r) \<in> set fin" by (rule map_of_SomeD)
  then have "(i, r) \<in> set (fst (run_in_order tasks (schedule_order sched [0..<length tasks]) s))"
    using assms(1) by simp
  from run_in_order_results [OF this] r show ?thesis by blast
qed

lemma gather_Inr:
  assumes "fst (gather sched tasks s) = Inr vs"
  shows "length vs = length tasks"
    and "i < length tasks \<Longrightarrow> \<exists>s0. fst ((tasks ! i) s0) = Inr (vs ! i)"
proof -
  obtain fin s' where run: "run_in_order tasks (schedule_order sched [0..<length tasks]) s = (fin, s')"
    by (cases "run_in_order tasks (schedule_order sched [0..<length tasks]) s")
  from assms run have none: "first_error (map snd fin) = None"
    by (simp add: gather_def split: option.splits)
  define pick where "pick = (\<lambda>i. case map_of fin i of Some (Inr v) \<Rightarrow> [v] | _ \<Rightarrow> [])"
  from assms run none have vs: "vs = concat (map pick [0..<length tasks])"
    by (simp add: gather_def pick_def)
  have ex: "\<exists>v s0. map_of fin j = Some (Inr v) \<and> fst ((tasks ! j) s0) = Inr v"
    if "j < length tasks" for j
  proof -
    from gather_finished [OF run that] obtain r s0
      where r: "map_of fin j = Some r" "r = fst ((tasks ! j) s0)" by blast
    from r(1) have "r \<in> set (map snd fin)"
      by (metis map_of_SomeD image_eqI list.set_map snd_conv)
    from first_error_None [OF none this] obtain v where "r = Inr v" ..
    with r have "map_of fin j = Some (Inr v)" and "fst ((tasks ! j) s0) = Inr v" by simp_all
    then show ?thesis by blast
  qed
  define val where "val = (\<lambda>j. SOME v. map_of fin j = Some (Inr v))"
  have val: "map_of fin j = Some (Inr (val j))" if "j < length tasks" for j
    unfolding val_def using ex [OF that] by (metis (mono_tags, lifting) someI_ex)
  have "pick j = [val j]" if "j \<in> set [0..<length tasks]" for j
    using val [of j] that by (simp add: pick_def)
  then have vs': "vs = map val [0..<length tasks]"
    unfolding vs by (rule concat_singletons)
  then show "length vs = length tasks" by simp
  show "\<exists>s0. fst ((tasks ! i) s0) = Inr (vs ! i)" if "i < length tasks"
    using ex [OF that] val [OF that] that by (auto simp: vs')
qed

lemma gather_Inl:
  assumes "fst (gather sched tasks s) = Inl e"
  shows "\<exists>i s0. i < length tasks \<and> fst ((tasks ! i) s0) = Inl e"
proof -
  obtain fin s' where run: "run_in_order tasks (schedule_order sched [0..<length tasks]) s = (fin, s')"
    by (cases "run_in_order tasks (schedule_order sched [0..<length tasks]) s")
  from assms run have "first_error (map snd fin) = Some e"
    by (simp add: gather_def split: option.splits)
  then have "Inl e \<in> set (map snd fin)" by (rule first_error_Some)
  then obtain i where mem: "(i, Inl e) \<in> set fin" by auto
  then have "i \<in> set (map fst fin)" by force
  also have "map fst fin = schedule_order sched [0..<length tasks]"
    using run_in_order_keys [of tasks "schedule_order sched [0..<length tasks]" s] run by simp
  also have "set \<dots> = set [0..<length tasks]" using schedule_order_set by blast
  finally have i: "i < length tasks" by simp
  from mem run have "(i, Inl e) \<in> set (fst (run_in_order tasks (schedule_order sched [0..<length tasks]) s))"
    by simp
  from run_in_order_results [OF this] i show ?thesis by metis
qed

lemma gather_total:
  assumes "\<And>i s0. i < length tasks \<Longrightarrow> \<exists>v. fst ((tasks ! i) s0) = Inr v"
  shows "\<exists>vs. fst (gather sched tasks s) = Inr vs"
proof (cases "fst (gather sched tasks s)")
  case (Inl e)
  from gather_Inl [OF this] obtain i s0
    where i: "i < length tasks" and e: "fst ((tasks ! i) s0) = Inl e" by blast
  from assms [OF i, of s0] e show ?thesis by simp
next
  case (Inr vs)
  then show ?thesis by blast
qed

section \<open>One wallet\<close>

lemma wallet_fanout_Inr:
  assumes "fst (wallet_fanout nets env sched addr s) = Inr bals"
  shows "length bals = length nets"
    and "i < length nets \<Longrightarrow>
         \<exists>s0. fst (get_balance_for_network nets env addr (fst (nets ! i)) s0) = Inr (bals ! i)"
proof -
  let ?tasks = "map (\<lambda>(network_name, rpcs). get_balance_for_network nets env addr network_name) nets"
  from assms have g: "fst (gather sched ?tasks s) = Inr bals" by (simp add: wallet_fanout_def)
  from gather_Inr(1) [OF g] show "length bals = length nets" by simp
  show "\<exists>s0. fst (get_balance_for_network nets env addr (fst (nets ! i)) s0) = Inr (bals ! i)"
    if "i < length nets"
  proof -
    from that have "i < length ?tasks" by simp
    from gather_Inr(2) [OF g this] that show ?thesis
      by (simp add: case_prod_beta)
  qed
qed

lemma process_wallet_normal:
  assumes "fst (wallet_fanout nets env sched (strip wallet) s) = Inr bals"
  shows "fst (process_wallet nets env sched wallet s)
         = \<lparr>address = strip wallet,
            balances = map (\<lambda>((network_name, rpcs), b).
                               \<lparr>network = network_name, balance = b,
                                token = Symbol (coin_symbol network_name)\<rparr>) (zip nets bals)\<rparr>"
  using assms
  by (cases "wallet_fanout nets env sched (strip wallet) s") (simp add: process_wallet_def)

lemma process_wallet_failed:
  assumes "fst (wallet_fanout nets env sched (strip wallet) s) = Inl e"
  shows "fst (process_wallet nets env sched wallet s)
         = \<lparr>address = wallet,
            balances = [\<lparr>network = ''ERROR'', balance = Decimal False 0 0, token = ErrorText e\<rparr>]\<rparr>"
  using assms
  by (cases "wallet_fanout nets env sched (strip wallet) s") (simp add: process_wallet_def)

text \<open>
  C4. When the fan-out of a wallet completes without an exception, the wallet has one
  balance per configured network: the names are the configured names in their order, the
  token is the coin symbol of the name, and the amount at each position is a value that the
  fetch for the network at that position returned, whichever fetch completed first.
\<close>

theorem process_wallet_order:
  assumes "fst (wallet_fanout nets env sched (strip wallet) s) = Inr bals"
  shows "length (balances (fst (process_wallet nets env sched wallet s))) = length nets
       \<and> map network (balances (fst (process_wallet nets env sched wallet s))) = map fst nets
       \<and> map balance (balances (fst (process_wallet nets env sched wallet s))) = bals
       \<and> map token (balances (fst (process_wallet nets env sched wallet s)))
           = map (\<lambda>(network_name, rpcs). Symbol (coin_symbol network_name)) nets
       \<and> (\<forall>i < length nets. \<exists>s0.
             fst (get_balance_for_network nets env (strip wallet) (fst (nets ! i)) s0)
             = Inr (balance (balances (fst (process_wallet nets env sched wallet s)) ! i)))"
proof -
  let ?wb = "fst (process_wallet nets env sched wallet s)"
  have len: "length bals = length nets" by (rule wallet_fanout_Inr(1) [OF assms])
  have bs: "balances ?wb = map (\<lambda>((network_name, rpcs), b).
                               \<lparr>network = network_name, balance = b,
                                token = Symbol (coin_symbol network_name)\<rparr>) (zip nets bals)"
    by (simp add: process_wallet_normal [OF assms])
  have l: "length (balances ?wb) = length nets" by (simp add: bs len)
  have n: "map network (balances ?wb) = map fst nets"
  proof -
    have "map network (balances ?wb) = map fst (map fst (zip nets bals))"
      by (simp add: bs case_prod_beta o_def)
    then show ?thesis by (simp add: len)
  qed
  have b: "map balance (balances ?wb) = bals"
  proof -
    have "map balance (balances ?wb) = map snd (zip nets bals)"
      by (simp add: bs case_prod_beta o_def)
    then show ?thesis by (simp add: len)
  qed
  have t: "map token (balances ?wb)
           = map (\<lambda>(network_name, rpcs). Symbol (coin_symbol network_name)) nets"
  proof -
    have "map token (balances ?wb)
          = map (\<lambda>(network_name, rpcs). Symbol (coin_symbol network_name)) (map fst (zip nets bals))"
      by (simp add: bs case_prod_beta o_def)
    then show ?thesis by (simp add: len)
  qed
  have f: "\<forall>i < length nets. \<exists>s0.
             fst (get_balance_for_network nets env (strip wallet) (fst (nets ! i)) s0)
             = Inr (balance (balances ?wb ! i))"
  proof (intro allI impI)
    fix i assume i: "i < length nets"
    then have "balance (balances ?wb ! i) = map balance (balances ?wb) ! i"
      using l by simp
    also have "\<dots> = bals ! i" by (simp only: b)
    finally show "\<exists>s0. fst (get_balance_for_network nets env (strip wallet) (fst (nets ! i)) s0)
             = Inr (balance (balances ?wb ! i))"
      using wallet_fanout_Inr(2) [OF assms i] by simp
  qed
  from l n b t f show ?thesis by blast
qed


theorem process_wallet_order_witness:
  "fst (wallet_fanout [(''Base'', [''u1'']), (''BSC'', [''u2''])]
         (\<lambda>k u a. Response \<lparr>status_code = 200, response_text = [],
                       body = JsonObject None (Some (JString
                         (if u = ''u1'' then ''0xDE0B6B3A7640000'' else ''0x1bc16d674ec80000'')))\<rparr>)
         [1] (strip '' w1 '') init_state)
     = Inr [Decimal False 1 0, Decimal False 2 0]
   \<and> map network (balances (fst (process_wallet [(''Base'', [''u1'']), (''BSC'', [''u2''])]
         (\<lambda>k u a. Response \<lparr>status_code = 200, response_text = [],
                       body = JsonObject None (Some (JString
                         (if u = ''u1'' then ''0xDE0B6B3A7640000'' else ''0x1bc16d674ec80000'')))\<rparr>)
         [1] '' w1 '' init_state))) = [''Base'', ''BSC'']
   \<and> map balance (balances (fst (process_wallet [(''Base'', [''u1'']), (''BSC'', [''u2''])]
         (\<lambda>k u a. Response \<lparr>status_code = 200, response_text = [],
                       body = JsonObject None (Some (JString
                         (if u = ''u1'' then ''0xDE0B6B3A7640000'' else ''0x1bc16d674ec80000'')))\<rparr>)
         [1] '' w1 '' init_state))) = [Decimal False 1 0, Decimal False 2 0]"
proof -
  have f: "fst (wallet_fanout [(''Base'', [''u1'']), (''BSC'', [''u2''])]
         (\<lambda>k u a. Response \<lparr>status_code = 200, response_text = [],
                       body = JsonObject None (Some (JString
                         (if u = ''u1'' then ''0xDE0B6B3A7640000'' else ''0x1bc16d674ec80000'')))\<rparr>)
         [1] (strip '' w1 '') init_state)
     = Inr [Decimal False 1 0, Decimal False 2 0]"
    by code_simp
  from process_wallet_order [OF f] f show ?thesis by simp
qed

section \<open>The report\<close>

lemma process_wallet_address:
  "address (fst (process_wallet nets env sched wallet s)) = strip wallet
   \<or> address (fst (process_wallet nets env sched wallet s)) = wallet"
proof (cases "fst (wallet_fanout nets env sched (strip wallet) s)")
  case (Inl e)
  then show ?thesis by (simp add: process_wallet_failed)
next
  case (Inr bals)
  then show ?thesis by (simp add: process_wallet_normal)
qed

lemma process_wallet_chunk_addresses:
  "list_all2 (\<lambda>wb w. address wb = strip w \<or> address wb = w)
     (fst (process_wallet_chunk nets env scheds chunk s)) chunk"
proof (induction chunk arbitrary: scheds s)
  case Nil
  then show ?case by simp
next
  case (Cons wallet rest)
  obtain wb s1 where p: "process_wallet nets env (scheds 0) wallet s = (wb, s1)"
    by (cases "process_wallet nets env (scheds 0) wallet s")
  obtain wbs s2 where r: "process_wallet_chunk nets env (\<lambda>i. scheds (Suc i)) rest s1 = (wbs, s2)"
    by (cases "process_wallet_chunk nets env (\<lambda>i. scheds (Suc i)) rest s1")
  from process_wallet_address [of nets env "scheds 0" wallet s] p
  have "address wb = strip wallet \<or> address wb = wallet" by simp
  moreover from Cons.IH [of "\<lambda>i. scheds (Suc i)" s1] r
  have "list_all2 (\<lambda>wb w. address wb = strip w \<or> address wb = w) wbs rest" by simp
  ultimately show ?case using p r by simp
qed

lemma list_all2_concat:
  "list_all2 (list_all2 R) xss yss \<Longrightarrow> list_all2 R (concat xss) (concat yss)"
  by (induction rule: list_all2_induct) (auto intro: list_all2_appendI)

text \<open>
  The chunk tasks never raise, so \<open>evm_checker\<close> returns a report for every list that it
  can cut into chunks, and the report is the concatenation of the chunk results in the
  order of the chunks.
\<close>

lemma evm_checker_Inr:
  assumes "wallet_chunks ws = Inr chunks"
  shows "\<exists>rs. fst (evm_checker nets env chunk_sched wallet_scheds ws s) = Inr \<lparr>wallets = concat rs\<rparr>
            \<and> length rs = length chunks
            \<and> (\<forall>j < length chunks. \<exists>s0.
                  rs ! j = fst (process_wallet_chunk nets env (wallet_scheds j) (chunks ! j) s0))"
proof -
  define tasks :: "(state, WalletBalances list) task list" where
    "tasks = map (\<lambda>(j, chunk). \<lambda>s0.
                    case process_wallet_chunk nets env (wallet_scheds j) chunk s0 of
                      (r, s1) \<Rightarrow> (Inr r, s1))
                 (zip [0..<length chunks] chunks)"
  have len: "length tasks = length chunks" by (simp add: tasks_def)
  have task: "fst ((tasks ! j) s0)
              = Inr (fst (process_wallet_chunk nets env (wallet_scheds j) (chunks ! j) s0))"
    if "j < length chunks" for j s0
    using that by (simp add: tasks_def split: prod.splits)
  have "\<exists>v. fst ((tasks ! i) s0) = Inr v" if "i < length tasks" for i s0
    using task [of i s0] that len by simp
  from gather_total [of tasks chunk_sched s, OF this]
  obtain rs where g: "fst (gather chunk_sched tasks s) = Inr rs" by blast
  have e: "fst (evm_checker nets env chunk_sched wallet_scheds ws s) = Inr \<lparr>wallets = concat rs\<rparr>"
    using assms g
    by (cases "gather chunk_sched tasks s") (simp add: evm_checker_def tasks_def [symmetric])
  have l: "length rs = length chunks" using gather_Inr(1) [OF g] len by simp
  have "\<exists>s0. rs ! j = fst (process_wallet_chunk nets env (wallet_scheds j) (chunks ! j) s0)"
    if "j < length chunks" for j
  proof -
    from that len have "j < length tasks" by simp
    from gather_Inr(2) [OF g this] obtain s0 where "fst ((tasks ! j) s0) = Inr (rs ! j)" ..
    with task [OF that, of s0] show ?thesis by auto
  qed
  with e l show ?thesis by blast
qed

text \<open>
  C1. For every non-empty address list, every configuration, every behaviour of the
  endpoints and every schedule, \<open>evm_checker\<close> returns a report with exactly one
  \<open>WalletBalances\<close> per input address, in the order of the input: the entry at each
  position carries the address at that position, stripped, or as given when the wallet's
  processing failed.
\<close>

theorem evm_checker_one_per_address:
  assumes "ws \<noteq> []"
  shows "\<exists>report. fst (evm_checker nets env chunk_sched wallet_scheds ws s) = Inr report
           \<and> length (wallets report) = length ws
           \<and> list_all2 (\<lambda>wb w. address wb = strip w \<or> address wb = w) (wallets report) ws"
proof -
  from wallet_chunks_concat [OF assms] obtain chunks
    where c: "wallet_chunks ws = Inr chunks" and cat: "concat chunks = ws" by blast
  from evm_checker_Inr [OF c, of nets env chunk_sched wallet_scheds s] obtain rs
    where e: "fst (evm_checker nets env chunk_sched wallet_scheds ws s) = Inr \<lparr>wallets = concat rs\<rparr>"
      and l: "length rs = length chunks"
      and r: "\<forall>j < length chunks. \<exists>s0.
                rs ! j = fst (process_wallet_chunk nets env (wallet_scheds j) (chunks ! j) s0)"
    by blast
  have "list_all2 (list_all2 (\<lambda>wb w. address wb = strip w \<or> address wb = w)) rs chunks"
  proof (rule list_all2_all_nthI [OF l])
    fix j assume "j < length rs"
    with l r obtain s0
      where "rs ! j = fst (process_wallet_chunk nets env (wallet_scheds j) (chunks ! j) s0)"
      by auto
    then show "list_all2 (\<lambda>wb w. address wb = strip w \<or> address wb = w) (rs ! j) (chunks ! j)"
      by (simp add: process_wallet_chunk_addresses)
  qed
  then have a: "list_all2 (\<lambda>wb w. address wb = strip w \<or> address wb = w) (concat rs) ws"
    unfolding cat [symmetric] by (rule list_all2_concat)
  then have "length (concat rs) = length ws" by (rule list_all2_lengthD)
  with e a show ?thesis by (intro exI [of _ "\<lparr>wallets = concat rs\<rparr>"]) simp
qed

theorem evm_checker_one_per_address_witness:
  "['' w1'', ''w2 ''] \<noteq> []
   \<and> (\<exists>report. fst (evm_checker [(''Base'', [''u1''])]
          (\<lambda>k u a. Response \<lparr>status_code = 200, response_text = [],
                        body = JsonObject None (Some (JString ''0xDE0B6B3A7640000''))\<rparr>)
          [1] (\<lambda>j i. []) ['' w1'', ''w2 ''] init_state) = Inr report
        \<and> length (wallets report) = 2
        \<and> map address (wallets report) = [''w1'', ''w2''])"
proof -
  have ne: "['' w1'', ''w2 ''] \<noteq> []" by simp
  have v: "fst (evm_checker [(''Base'', [''u1''])]
          (\<lambda>k u a. Response \<lparr>status_code = 200, response_text = [],
                        body = JsonObject None (Some (JString ''0xDE0B6B3A7640000''))\<rparr>)
          [1] (\<lambda>j i. []) ['' w1'', ''w2 ''] init_state)
        = Inr \<lparr>wallets =
            [\<lparr>address = ''w1'', balances = [\<lparr>network = ''Base'', balance = Decimal False 1 0,
                                               token = Symbol ''ETH''\<rparr>]\<rparr>,
             \<lparr>address = ''w2'', balances = [\<lparr>network = ''Base'', balance = Decimal False 1 0,
                                               token = Symbol ''ETH''\<rparr>]\<rparr>]\<rparr>"
    by code_simp
  from evm_checker_one_per_address [OF ne, of "[(''Base'', [''u1''])]"
      "\<lambda>k u a. Response \<lparr>status_code = 200, response_text = [],
                        body = JsonObject None (Some (JString ''0xDE0B6B3A7640000''))\<rparr>"
      "[1]" "\<lambda>j i. []" init_state] v ne
  show ?thesis by simp
qed

section \<open>Configurations with an endpoint for every network\<close>

text \<open>
  \<open>get_next_rpc\<close> keeps every cursor inside its list, so with non-empty endpoint lists no
  fetch raises, from any state that the program reaches.
\<close>

lemma cursors_ok_requests [simp]:
  "cursors_ok nets (s\<lparr>requests := rs\<rparr>) = cursors_ok nets s"
  by (simp add: cursors_ok_def)












section \<open>The rate limiter\<close>

text \<open>
  C9. Three callers for one network, none served before. The first enters at time 0 and
  dispatches at once. The second enters at 0.1 and the third at 0.2; both read the same
  last request time 0, both sleep until 3, and both dispatch at 3, so two consecutive
  dispatches are 0 seconds apart: the check and the update are not atomic.
\<close>

theorem rate_limit_race:
  "map_option dispatches
     (run_events ''Base'' [(0, 0), (1, 1 / 10), (2, 2 / 10), (1, 3), (2, 3)]
        \<lparr>last_request_time = Map.empty, callers = [NotStarted, NotStarted, NotStarted],
         clock = 0, dispatches = []\<rparr>)
     = Some [(''Base'', 0), (''Base'', 3), (''Base'', 3)]
   \<and> \<not> spaced [0, 3, 3]"
  by (simp add: resume_def MIN_REQUEST_INTERVAL_def Let_def)

end
